theory Spec2Isabelle
  imports Complex_Main "HOL-Library.Sublist"
begin

section \<open>Strings of the source\<close>

text \<open>
  A source string is a sequence of UTF-16 code units, and \<open>length\<close>, \<open>indexOf\<close> and the
  offsets of the program count code units. A code unit is modelled as an integer (from
  0 to 65535) and a string as a list of them; \<open>js\<close> turns a literal of ASCII characters
  into such a string.
\<close>

type_synonym jsstring = "int list"

definition js :: "string \<Rightarrow> jsstring" where
  "js s = map of_char s"

text \<open>
  \<open>toLowerCase\<close>. U+0130 (capital I with dot above) is the one code point whose lower-case
  form has more code units than itself: it becomes U+0069 U+0307. The letters A to Z and
  the capital letters of U+00C0 to U+00DE (U+00D7 is the multiplication sign) move up by
  32. The capital letters beyond U+00FF other than U+0130, which the source maps without
  changing the number of code units, are left as they are by the model.
\<close>

definition is_upper :: "int \<Rightarrow> bool" where
  "is_upper u = ((0x41 \<le> u \<and> u \<le> 0x5A) \<or> (0xC0 \<le> u \<and> u \<le> 0xDE \<and> u \<noteq> 0xD7))"

definition lowerOne :: "int \<Rightarrow> int" where
  "lowerOne u = (if is_upper u then u + 0x20 else u)"

definition lowerUnit :: "int \<Rightarrow> jsstring" where
  "lowerUnit u = (if u = 0x130 then [0x69, 0x307] else [lowerOne u])"

definition toLowerCase :: "jsstring \<Rightarrow> jsstring" where
  "toLowerCase s = concat (map lowerUnit s)"

text \<open>
  The white space of \<open>trim\<close> and of the class \<open>\s\<close>: TAB, LF, VT, FF, CR, SPACE, U+00A0,
  U+1680, U+2000 to U+200A, U+2028, U+2029, U+202F, U+205F, U+3000 and U+FEFF.
\<close>

definition is_space :: "int \<Rightarrow> bool" where
  "is_space u = (u \<in> {0x09, 0x0A, 0x0B, 0x0C, 0x0D, 0x20, 0xA0, 0x1680, 0x2028, 0x2029,
                       0x202F, 0x205F, 0x3000, 0xFEFF}
                 \<or> (0x2000 \<le> u \<and> u \<le> 0x200A))"

text \<open>The class \<open>\d\<close>: the digits 0 to 9.\<close>

definition is_digit :: "int \<Rightarrow> bool" where
  "is_digit u = (0x30 \<le> u \<and> u \<le> 0x39)"

text \<open>\<open>s.trim()\<close>: white space removed at both ends.\<close>

definition trim :: "jsstring \<Rightarrow> jsstring" where
  "trim s = rev (dropWhile is_space (rev (dropWhile is_space s)))"

text \<open>\<open>s.replace(/\s+/g, ' ')\<close>: every maximal run of white space becomes one space.\<close>

function collapse_ws :: "jsstring \<Rightarrow> jsstring" where
  "collapse_ws [] = []"
| "collapse_ws (c # cs) =
     (if is_space c then 0x20 # collapse_ws (dropWhile is_space cs)
      else c # collapse_ws cs)"
  by pat_completeness auto
termination
  by (relation "measure length") (auto simp: less_Suc_eq_le length_dropWhile_le)

text \<open>
  \<open>/^\d+\.?\d*$/.test(s)\<close>: one or more digits, then optionally a dot (U+002E) followed
  by any number of digits, and nothing else.
\<close>

definition is_pure_number :: "jsstring \<Rightarrow> bool" where
  "is_pure_number s =
     (let ds = takeWhile is_digit s; rest = dropWhile is_digit s
      in ds \<noteq> [] \<and>
         (case rest of [] \<Rightarrow> True
                     | c # r \<Rightarrow> c = 0x2E \<and> list_all is_digit r))"

text \<open>\<open>xs.join(' ')\<close>.\<close>

fun join_sp :: "jsstring list \<Rightarrow> jsstring" where
  "join_sp [] = []"
| "join_sp [s] = s"
| "join_sp (s # t # ts) = s @ 0x20 # join_sp (t # ts)"

text \<open>\<open>hay.indexOf(needle)\<close>: the first position of \<open>needle\<close> in \<open>hay\<close>, \<open>None\<close> for \<open>-1\<close>.\<close>

fun indexOf :: "jsstring \<Rightarrow> jsstring \<Rightarrow> nat option" where
  "indexOf [] needle = (if needle = [] then Some 0 else None)"
| "indexOf (h # hay) needle =
     (if prefix needle (h # hay) then Some 0
      else map_option Suc (indexOf hay needle))"

text \<open>\<open>hay.includes(needle)\<close>.\<close>

definition includes_str :: "jsstring \<Rightarrow> jsstring \<Rightarrow> bool" where
  "includes_str hay needle = (indexOf hay needle \<noteq> None)"

text \<open>\<open>a || b\<close> on an optional string \<open>a\<close>: \<open>b\<close> when \<open>a\<close> is absent or empty.\<close>

definition orElse :: "jsstring option \<Rightarrow> jsstring \<Rightarrow> jsstring" where
  "orElse a b = (case a of None \<Rightarrow> b | Some s \<Rightarrow> if s = [] then b else s)"


section \<open>Data model\<close>

text \<open>
  A text item of a page as the index loop reads it: \<open>item.str\<close> (which may be absent)
  and the two coordinates taken from the transformed matrix. The coordinates are only
  passed through, so their type is left open.
\<close>

record 'c TextItem =
  str :: "jsstring option"
  transform4 :: 'c
  transform5 :: 'c

text \<open>
  \<open>TextPosition\<close>. The fields \<open>text\<close>, \<open>x\<close> and \<open>y\<close> of the source are called
  \<open>itemText\<close>, \<open>posX\<close> and \<open>posY\<close> here.
\<close>

record 'c TextPosition =
  pageNum :: nat
  itemIndex :: nat
  itemText :: jsstring
  normalizedText :: jsstring
  charStart :: nat
  charEnd :: nat
  posX :: 'c
  posY :: 'c

text \<open>\<open>SearchMatch\<close>; its \<open>pageNum\<close> is called \<open>matchPage\<close> here.\<close>

record SearchMatch =
  matchPage :: nat
  itemIndices :: "nat list"
  exactMatch :: bool
  confidence :: real

datatype MappingType = Manual | Ai

text \<open>\<open>MappingItem\<close>; its fields \<open>text\<close> and \<open>type\<close> are called \<open>displayText\<close> and \<open>origin\<close>.\<close>

record MappingItem =
  page :: nat
  displayText :: jsstring
  label :: jsstring
  path :: jsstring
  origin :: MappingType
  verified :: bool
  citedText :: "jsstring option"

text \<open>\<open>PreciseHighlight\<close>, with its fields prefixed by \<open>hl\<close>.\<close>

record PreciseHighlight =
  hlPageNum :: nat
  hlItemIndex :: nat
  hlPath :: jsstring
  hlVerified :: bool
  hlCitedText :: jsstring

section \<open>The text index of \<open>handleFileChange\<close>\<close>

text \<open>
  The inner \<open>forEach\<close> over the items of page \<open>i\<close>: \<open>idx\<close> is the position of the item in
  the page and \<open>charOffset\<close> the running offset, which is returned with the entries.
\<close>

fun indexPage :: "nat \<Rightarrow> nat \<Rightarrow> nat \<Rightarrow> 'c TextItem list \<Rightarrow> 'c TextPosition list \<times> nat" where
  "indexPage i idx charOffset [] = ([], charOffset)"
| "indexPage i idx charOffset (item # items) =
     (let txt = (case str item of None \<Rightarrow> [] | Some s \<Rightarrow> s);
          entry = \<lparr> pageNum = i, itemIndex = idx, itemText = txt,
                    normalizedText = trim (toLowerCase txt),
                    charStart = charOffset, charEnd = charOffset + length txt,
                    posX = transform4 item, posY = transform5 item \<rparr>;
          (entries, charOffset') = indexPage i (Suc idx) (charOffset + length txt + 1) items
      in (entry # entries, charOffset'))"

text \<open>The outer loop over the pages, from page \<open>i\<close> on.\<close>

fun indexPages :: "nat \<Rightarrow> nat \<Rightarrow> 'c TextItem list list \<Rightarrow> 'c TextPosition list" where
  "indexPages i charOffset [] = []"
| "indexPages i charOffset (p # ps) =
     (let (entries, charOffset') = indexPage i 0 charOffset p
      in entries @ indexPages (Suc i) charOffset' ps)"

text \<open>
  \<open>newTextIndex\<close> as \<open>handleFileChange\<close> leaves it: pages \<open>1\<close> to \<open>min(numPages, 10)\<close>, the
  offset starting at \<open>0\<close>. This is the \<open>buildIndex\<close> of the specification, and the only
  value other than the empty list that the state \<open>textIndex\<close> ever takes.
\<close>

definition newTextIndex :: "'c TextItem list list \<Rightarrow> 'c TextPosition list" where
  "newTextIndex pages = indexPages 1 0 (take 10 pages)"

section \<open>The citation matcher\<close>

text \<open>
  The loop of \<open>findItemsForCharRange\<close>, with \<open>currentChar\<close> as an argument; the indices
  are pushed in the order of the items.
\<close>

fun findItemsFrom :: "nat \<Rightarrow> 'c TextPosition list \<Rightarrow> nat \<Rightarrow> nat \<Rightarrow> nat list" where
  "findItemsFrom currentChar [] startChar endChar = []"
| "findItemsFrom currentChar (item # items) startChar endChar =
     (let itemStart = currentChar;
          itemEnd = currentChar + length (itemText item)
      in (if itemEnd > startChar \<and> itemStart < endChar then [itemIndex item] else [])
         @ findItemsFrom (itemEnd + 1) items startChar endChar)"

definition findItemsForCharRange :: "'c TextPosition list \<Rightarrow> nat \<Rightarrow> nat \<Rightarrow> nat list" where
  "findItemsForCharRange pageItems startChar endChar = findItemsFrom 0 pageItems startChar endChar"

text \<open>
  Three expressions of \<open>searchForCitedText\<close> with names of their own: the normalized
  query, the items of the hint page, and the lower-cased text of a page.
\<close>

definition normalizeQuery :: "jsstring \<Rightarrow> jsstring" where
  "normalizeQuery query = collapse_ws (trim (toLowerCase query))"

definition pageItemsOf :: "'c TextPosition list \<Rightarrow> nat \<Rightarrow> 'c TextPosition list" where
  "pageItemsOf textIndex hp = filter (\<lambda>t. pageNum t = hp) textIndex"

definition normalizedPageText :: "'c TextPosition list \<Rightarrow> jsstring" where
  "normalizedPageText pageItems = toLowerCase (join_sp (map itemText pageItems))"

text \<open>
  \<open>searchForCitedText\<close>, with the text index it closes over as first argument. An absent
  \<open>hintPage\<close> is \<open>None\<close>; \<open>!hintPage\<close> also holds for page \<open>0\<close>.
\<close>

definition searchForCitedText ::
  "'c TextPosition list \<Rightarrow> jsstring \<Rightarrow> nat option \<Rightarrow> SearchMatch option" where
  "searchForCitedText textIndex query hintPage =
     (if query = [] \<or> length query < 12 \<or> length textIndex = 0 then None
      else if is_pure_number (trim query) then None
      else
        let normalizedQuery = normalizeQuery query in
        (case hintPage of
           None \<Rightarrow> None
         | Some hp \<Rightarrow>
             if hp = 0 then None
             else
               let pageItems = pageItemsOf textIndex hp in
               if length pageItems = 0 then None
               else
                 (case indexOf (normalizedPageText pageItems) normalizedQuery of
                    None \<Rightarrow> None
                  | Some matchIndex \<Rightarrow>
                      let found = findItemsForCharRange pageItems matchIndex
                                    (matchIndex + length normalizedQuery)
                      in if length found > 0 \<and> length found \<le> 5
                         then Some \<lparr> matchPage = hp, itemIndices = found,
                                      exactMatch = True, confidence = 1 \<rparr>
                         else None)))"

section \<open>The highlight map\<close>

text \<open>
  \<open>buildPreciseHighlights\<close>. The map is keyed by the string \<open>pageNum-itemIdx\<close>, which
  determines the pair of numbers, so the pair is the key here. \<open>searchQuery\<close> is the
  query chosen for a mapping, \<open>skipMapping\<close> the test before \<open>continue\<close>,
  \<open>highlightEntry\<close> the object stored, \<open>setEntries\<close> the inner loop over the matched
  items and \<open>applyMapping\<close> the body of the outer loop.
\<close>

definition searchQuery :: "MappingItem \<Rightarrow> jsstring" where
  "searchQuery mapping = orElse (citedText mapping) (displayText mapping)"

definition skipMapping :: "MappingItem \<Rightarrow> bool" where
  "skipMapping mapping = (searchQuery mapping = [] \<or> length (searchQuery mapping) < 2)"

definition highlightEntry :: "MappingItem \<Rightarrow> nat \<Rightarrow> nat \<Rightarrow> PreciseHighlight" where
  "highlightEntry mapping pn itemIdx =
     \<lparr> hlPageNum = pn, hlItemIndex = itemIdx, hlPath = path mapping,
       hlVerified = verified mapping,
       hlCitedText = orElse (citedText mapping) (searchQuery mapping) \<rparr>"

definition setEntries ::
  "MappingItem \<Rightarrow> SearchMatch \<Rightarrow> (nat \<times> nat \<rightharpoonup> PreciseHighlight)
     \<Rightarrow> (nat \<times> nat \<rightharpoonup> PreciseHighlight)" where
  "setEntries mapping match highlights =
     fold (\<lambda>itemIdx h. h((matchPage match, itemIdx) \<mapsto>
                           highlightEntry mapping (matchPage match) itemIdx))
          (itemIndices match) highlights"

definition applyMapping ::
  "'c TextPosition list \<Rightarrow> MappingItem \<Rightarrow> (nat \<times> nat \<rightharpoonup> PreciseHighlight)
     \<Rightarrow> (nat \<times> nat \<rightharpoonup> PreciseHighlight)" where
  "applyMapping textIndex mapping highlights =
     (if skipMapping mapping then highlights
      else case searchForCitedText textIndex (searchQuery mapping) (Some (page mapping)) of
             None \<Rightarrow> highlights
           | Some match \<Rightarrow> setEntries mapping match highlights)"

definition buildPreciseHighlights ::
  "'c TextPosition list \<Rightarrow> MappingItem list \<Rightarrow> (nat \<times> nat \<rightharpoonup> PreciseHighlight)" where
  "buildPreciseHighlights textIndex mappingItems =
     fold (applyMapping textIndex) mappingItems Map.empty"

section \<open>Field-path inference\<close>

text \<open>\<open>inferFieldPath\<close>: the cascade of keyword tests, the first that succeeds decides.\<close>

definition inferFieldPath :: "jsstring \<Rightarrow> jsstring" where
  "inferFieldPath contextText =
     (let lowerContext = toLowerCase contextText; has = includes_str lowerContext in
      if has (js ''author'') \<or> has (js ''citation'') then js ''studyId.citation''
      else if has (js ''doi'') then js ''studyId.doi''
      else if has (js ''pmid'') then js ''studyId.pmid''
      else if has (js ''journal'') then js ''studyId.journal''
      else if has (js ''year'') \<or> has (js ''published'') then js ''studyId.year''
      else if has (js ''country'') \<or> has (js ''countries'') then js ''studyId.country''
      else if has (js ''sample size'') \<or> has (js ''total n'') \<or> has (js ''patients enrolled'')
        then js ''baseline.sampleSize.totalN''
      else if has (js ''surgical'') \<and> has (js ''n '') then js ''baseline.sampleSize.surgicalN''
      else if has (js ''control'') \<and> has (js ''n '') then js ''baseline.sampleSize.controlN''
      else if has (js ''age'') \<and> has (js ''mean'') then js ''baseline.age.mean''
      else if has (js ''age'') \<and> has (js ''median'') then js ''baseline.age.median''
      else if has (js ''male'') then js ''baseline.gender.maleN''
      else if has (js ''female'') then js ''baseline.gender.femaleN''
      else if has (js ''nihss'') then js ''baseline.clinicalScores.nihssMeanOrMedian''
      else if has (js ''gcs'') then js ''baseline.clinicalScores.gcsMeanOrMedian''
      else if has (js ''mrs'') \<and> \<not> has (js ''outcome'') then js ''baseline.clinicalScores.prestrokeMRS''
      else if has (js ''population'') \<or> has (js ''inclusion'') \<or> has (js ''eligib'') then js ''picoT.population''
      else if has (js ''intervention'') \<and> \<not> has (js ''type'') then js ''picoT.intervention''
      else if has (js ''comparator'') \<or> has (js ''control group'') then js ''picoT.comparator''
      else if has (js ''outcome'') \<and> has (js ''measure'') then js ''picoT.outcomesMeasured''
      else if has (js ''follow'') \<and> has (js ''up'') then js ''picoT.timingFollowUp''
      else if has (js ''study type'') \<or> has (js ''design'') then js ''picoT.studyType''
      else if has (js ''mortality'') \<or> has (js ''death'') then js ''outcomes.mortality''
      else if has (js ''mrs'') \<and> has (js ''outcome'') then js ''outcomes.mrs''
      else if has (js ''complication'') \<or> has (js ''adverse'') then js ''complications.items''
      else js ''extractionLog.extracted_data'')"

section \<open>Notions used in the statements\<close>


text \<open>
  \<open>offsetsFrom off ts\<close>: the entries \<open>ts\<close> carry the offsets of a run that starts at
  \<open>off\<close>; \<open>spanOf ts\<close> is the length of that run.
\<close>

fun offsetsFrom :: "nat \<Rightarrow> 'c TextPosition list \<Rightarrow> bool" where
  "offsetsFrom off [] = True"
| "offsetsFrom off (t # ts) =
     (charStart t = off \<and> charEnd t = off + length (itemText t)
      \<and> offsetsFrom (off + length (itemText t) + 1) ts)"

definition spanOf :: "'c TextPosition list \<Rightarrow> nat" where
  "spanOf ts = sum_list (map (\<lambda>t. length (itemText t) + 1) ts)"

text \<open>
  \<open>hits textIndex mapping key\<close>: the mapping is not skipped and its match covers the
  key, so the builder writes an entry at the key for it.
\<close>

definition hits :: "'c TextPosition list \<Rightarrow> MappingItem \<Rightarrow> nat \<times> nat \<Rightarrow> bool" where
  "hits textIndex mapping key =
     (\<not> skipMapping mapping \<and>
      (case searchForCitedText textIndex (searchQuery mapping) (Some (page mapping)) of
         None \<Rightarrow> False
       | Some match \<Rightarrow> matchPage match = fst key \<and> snd key \<in> set (itemIndices match)))"

section \<open>The mappings of \<open>getMappings\<close>\<close>







section \<open>The query selection in the words of the specification\<close>




section \<open>Example document\<close>

text \<open>
  Five pages: page 3 holds the fragments \<open>Sample size was 42 patients total.\<close>, page 4 a
  phrase behind an item without text, page 5 a sentence of twelve one-word fragments.
\<close>

definition mkItem :: "jsstring \<Rightarrow> unit TextItem" where
  "mkItem s = \<lparr> str = Some s, transform4 = (), transform5 = () \<rparr>"

definition noStr :: "unit TextItem" where
  "noStr = \<lparr> str = None, transform4 = (), transform5 = () \<rparr>"

definition examplePages :: "unit TextItem list list" where
  "examplePages =
     [ map (mkItem \<circ> js) [''Title'', ''page''],
       [],
       map (mkItem \<circ> js) [''Sample'', ''size'', ''was'', ''42'', ''patients'', ''total.''],
       [mkItem (js ''Severe''), noStr, mkItem (js ''brainstem''), mkItem (js ''compression''),
        mkItem (js ''was''), mkItem (js ''noted.'')],
       map (mkItem \<circ> js) [''The'', ''mortality'', ''rate'', ''was'', ''twenty'', ''percent'', ''in'',
                             ''this'', ''cohort'', ''of'', ''patients'', ''overall.''] ]"

definition exampleIndex :: "unit TextPosition list" where
  "exampleIndex = newTextIndex examplePages"

definition mkMapping :: "nat \<Rightarrow> string \<Rightarrow> string \<Rightarrow> string option \<Rightarrow> MappingItem" where
  "mkMapping pg txt pth cited =
     \<lparr> page = pg, displayText = js txt, label = js pth, path = js pth, origin = Ai,
       verified = True, citedText = map_option js cited \<rparr>"

definition totalMapping :: MappingItem where
  "totalMapping = mkMapping 3 ''42'' ''baseline.sampleSize.totalN'' (Some ''size was 42 patients'')"

definition surgicalMapping :: MappingItem where
  "surgicalMapping = mkMapping 3 ''42'' ''baseline.sampleSize.surgicalN'' (Some ''42 patients total.'')"

definition numericQuery :: jsstring where
  "numericQuery = js ''  1234567890123.5 ''"

definition scenarioAQuery :: jsstring where
  "scenarioAQuery = js ''Size  was 42 Patients''"



text \<open>
  A page that begins with thirty capital letters I with dot above (U+0130), and the
  phrase that follows them as the query.
\<close>

definition dottedPages :: "unit TextItem list list" where
  "dottedPages = [[mkItem (replicate 30 0x130), mkItem (js ''stroke registry data'')]]"

definition dottedQuery :: jsstring where
  "dottedQuery = js ''stroke registry data''"




section \<open>Facts about the string operations\<close>

text \<open>Without U+0130, \<open>toLowerCase\<close> works code unit by code unit.\<close>

lemma toLowerCase_plain: "0x130 \<notin> set s \<Longrightarrow> toLowerCase s = map lowerOne s"
  by (induction s) (simp_all add: toLowerCase_def lowerUnit_def)

lemma is_space_lowerOne [simp]: "is_space (lowerOne u) = is_space u"
  by (auto simp add: lowerOne_def is_upper_def is_space_def)

lemma lowerOne_space [simp]: "lowerOne 0x20 = 0x20"
  by (simp add: lowerOne_def is_upper_def)

lemma is_space_space [simp]: "is_space 0x20"
  by (simp add: is_space_def)

lemma length_trim_le: "length (trim s) \<le> length s"
proof -
  have "length (trim s) \<le> length (dropWhile is_space s)"
    unfolding trim_def using length_dropWhile_le [of is_space "rev (dropWhile is_space s)"] by simp
  also have "\<dots> \<le> length s" by (rule length_dropWhile_le)
  finally show ?thesis .
qed

lemma length_collapse_ws_le: "length (collapse_ws s) \<le> length s"
proof (induction s rule: collapse_ws.induct)
  case 1
  show ?case by simp
next
  case (2 c cs)
  show ?case
  proof (cases "is_space c")
    case True
    with 2 have "length (collapse_ws (dropWhile is_space cs)) \<le> length (dropWhile is_space cs)" by simp
    also have "\<dots> \<le> length cs" by (rule length_dropWhile_le)
    finally show ?thesis using True by simp
  next
    case False
    with 2 show ?thesis by simp
  qed
qed

lemma length_normalizeQuery_le:
  "0x130 \<notin> set q \<Longrightarrow> length (normalizeQuery q) \<le> length q"
  unfolding normalizeQuery_def
  using length_collapse_ws_le [of "trim (toLowerCase q)"] length_trim_le [of "toLowerCase q"]
  by (simp add: toLowerCase_plain)

lemma trim_hd_not_space: "trim s \<noteq> [] \<Longrightarrow> \<not> is_space (hd (trim s))"
proof -
  assume ne: "trim s \<noteq> []"
  define t where "t = dropWhile is_space s"
  have ts: "trim s = rev (dropWhile is_space (rev t))" by (simp add: trim_def t_def)
  with ne have tne: "t \<noteq> []" by auto
  then have h: "\<not> is_space (hd t)" unfolding t_def by (simp add: hd_dropWhile)
  note ts
  moreover have "\<exists>zs. t = rev (dropWhile is_space (rev t)) @ zs"
    by (metis rev_append rev_rev_ident takeWhile_dropWhile_id)
  ultimately obtain zs where "t = trim s @ zs" by auto
  with ne have "hd t = hd (trim s)" by (metis hd_append2)
  with h show ?thesis by simp
qed

lemma collapse_ws_hd:
  "s \<noteq> [] \<Longrightarrow> \<not> is_space (hd s) \<Longrightarrow> collapse_ws s \<noteq> [] \<and> hd (collapse_ws s) = hd s"
  by (cases s) auto

lemma normalizeQuery_hd:
  assumes "normalizeQuery q \<noteq> []"
  shows "\<not> is_space (hd (normalizeQuery q))"
proof -
  have "trim (toLowerCase q) \<noteq> []" using assms unfolding normalizeQuery_def by auto
  then show ?thesis
    unfolding normalizeQuery_def
    using collapse_ws_hd [of "trim (toLowerCase q)"] trim_hd_not_space [of "toLowerCase q"] by simp
qed

text \<open>\<open>indexOf\<close> finds an occurrence exactly when there is one.\<close>

lemma indexOf_prefix:
  "indexOf hay needle = Some m \<Longrightarrow> m \<le> length hay \<and> prefix needle (drop m hay)"
proof (induction hay arbitrary: m)
  case Nil
  then show ?case by (simp split: if_splits)
next
  case (Cons h hay)
  show ?case
  proof (cases "prefix needle (h # hay)")
    case True
    with Cons.prems show ?thesis by simp
  next
    case False
    with Cons.prems obtain k where k: "indexOf hay needle = Some k" "m = Suc k" by auto
    with Cons.IH [of k] show ?thesis by simp
  qed
qed

lemma indexOf_found:
  "prefix needle (drop m hay) \<Longrightarrow> m \<le> length hay \<Longrightarrow> \<exists>k. indexOf hay needle = Some k"
proof (induction hay arbitrary: m)
  case Nil
  then show ?case by simp
next
  case (Cons h hay)
  show ?case
  proof (cases "prefix needle (h # hay)")
    case True
    then show ?thesis by simp
  next
    case False
    with Cons.prems obtain k where "m = Suc k" by (cases m) auto
    with Cons.prems Cons.IH [of k] False show ?thesis by auto
  qed
qed

lemma indexOf_contains:
  "hay = pre @ needle @ post \<Longrightarrow> \<exists>k. indexOf hay needle = Some k"
  by (rule indexOf_found [of needle "length pre"]) simp_all

lemma includes_str_iff:
  "includes_str hay needle \<longleftrightarrow> (\<exists>pre post. hay = pre @ needle @ post)"
proof
  assume "includes_str hay needle"
  then obtain m where m: "indexOf hay needle = Some m" by (auto simp add: includes_str_def)
  from indexOf_prefix [OF m] obtain zs where "drop m hay = needle @ zs"
    by (auto simp add: prefix_def)
  then have "hay = take m hay @ needle @ zs" by (metis append_take_drop_id)
  then show "\<exists>pre post. hay = pre @ needle @ post" by blast
next
  assume "\<exists>pre post. hay = pre @ needle @ post"
  then obtain pre post where "hay = pre @ needle @ post" by blast
  from indexOf_contains [OF this] show "includes_str hay needle"
    by (auto simp add: includes_str_def)
qed

text \<open>A pure number is left alone by the normalization of the query.\<close>

lemma pure_number_chars:
  assumes "is_pure_number s"
  shows "\<forall>c\<in>set s. is_digit c \<or> c = 0x2E"
proof
  fix c assume c: "c \<in> set s"
  have "set (takeWhile is_digit s @ dropWhile is_digit s) = set s"
    by (simp only: takeWhile_dropWhile_id)
  then have "set s = set (takeWhile is_digit s) \<union> set (dropWhile is_digit s)"
    by (simp only: set_append)
  with c have "c \<in> set (takeWhile is_digit s) \<or> c \<in> set (dropWhile is_digit s)"
    by blast
  then show "is_digit c \<or> c = 0x2E"
  proof
    assume "c \<in> set (takeWhile is_digit s)"
    then have "is_digit c" by (rule set_takeWhileD [THEN conjunct2])
    then show ?thesis ..
  next
    assume d: "c \<in> set (dropWhile is_digit s)"
    then obtain x r where xr: "dropWhile is_digit s = x # r" by (cases "dropWhile is_digit s") auto
    with assms have "x = 0x2E \<and> list_all is_digit r"
      by (simp add: is_pure_number_def Let_def)
    with d xr show ?thesis by (auto simp add: list_all_iff)
  qed
qed

lemma digit_or_dot_plain:
  "is_digit c \<or> c = 0x2E \<Longrightarrow> lowerOne c = c \<and> \<not> is_space c"
  by (auto simp add: lowerOne_def is_upper_def is_digit_def is_space_def)

lemma collapse_ws_id: "\<forall>c\<in>set s. \<not> is_space c \<Longrightarrow> collapse_ws s = s"
  by (induction s) simp_all

lemma trim_lowerOne: "trim (map lowerOne s) = map lowerOne (trim s)"
proof -
  have c: "is_space \<circ> lowerOne = is_space" by (rule ext) simp
  have a: "\<And>xs. dropWhile is_space (map lowerOne xs) = map lowerOne (dropWhile is_space xs)"
    by (simp add: dropWhile_map c)
  show ?thesis
    unfolding trim_def by (simp only: a rev_map)
qed

lemma pure_number_normalize:
  assumes "is_pure_number (trim q)" and "0x130 \<notin> set q"
  shows "normalizeQuery q = trim q"
proof -
  from pure_number_chars [OF assms(1)] digit_or_dot_plain
  have p: "\<forall>c\<in>set (trim q). lowerOne c = c \<and> \<not> is_space c" by blast
  have "map lowerOne (trim q) = trim q" using p by (intro map_idI) blast
  moreover have "collapse_ws (trim q) = trim q" using p by (intro collapse_ws_id) blast
  ultimately show ?thesis
    by (simp add: normalizeQuery_def toLowerCase_plain [OF assms(2)] trim_lowerOne)
qed

section \<open>Facts about the range scan\<close>

lemma findItemsFrom_past_end:
  "e \<le> cur \<Longrightarrow> findItemsFrom cur items s e = []"
  by (induction items arbitrary: cur) (simp_all add: Let_def)

lemma findItemsFrom_after_start:
  "s < cur \<Longrightarrow> \<exists>m. findItemsFrom cur items s e = map itemIndex (take m items)"
proof (induction items arbitrary: cur)
  case Nil
  show ?case by simp
next
  case (Cons item items)
  show ?case
  proof (cases "cur < e")
    case True
    from Cons.prems have "s < cur + length (itemText item) + 1" by simp
    from Cons.IH [OF this] obtain m where
      "findItemsFrom (cur + length (itemText item) + 1) items s e = map itemIndex (take m items)" ..
    with True Cons.prems
    have "findItemsFrom cur (item # items) s e = map itemIndex (take (Suc m) (item # items))"
      by (simp add: Let_def)
    then show ?thesis ..
  next
    case False
    then have "findItemsFrom cur (item # items) s e = map itemIndex (take 0 (item # items))"
      by (simp add: findItemsFrom_past_end)
    then show ?thesis ..
  qed
qed

lemma findItemsFrom_block:
  "\<exists>d m. findItemsFrom cur items s e = map itemIndex (take m (drop d items))"
proof (induction items arbitrary: cur)
  case Nil
  show ?case by simp
next
  case (Cons item items)
  let ?next = "cur + length (itemText item) + 1"
  show ?case
  proof (cases "cur + length (itemText item) > s \<and> cur < e")
    case True
    then have "s < ?next" by simp
    from findItemsFrom_after_start [OF this] obtain m where
      "findItemsFrom ?next items s e = map itemIndex (take m items)" ..
    with True
    have "findItemsFrom cur (item # items) s e =
          map itemIndex (take (Suc m) (drop 0 (item # items)))"
      by (simp add: Let_def)
    then show ?thesis by blast
  next
    case False
    from Cons.IH [of ?next] obtain d m where
      "findItemsFrom ?next items s e = map itemIndex (take m (drop d items))" by blast
    with False
    have "findItemsFrom cur (item # items) s e =
          map itemIndex (take m (drop (Suc d) (item # items)))"
      by (auto simp add: Let_def)
    then show ?thesis by blast
  qed
qed


lemma findItemsFrom_nonempty:
  "cur \<le> s \<Longrightarrow> s < e \<Longrightarrow> s - cur < length (join_sp (map itemText items)) \<Longrightarrow>
   join_sp (map itemText items) ! (s - cur) \<noteq> 0x20 \<Longrightarrow>
   findItemsFrom cur items s e \<noteq> []"
proof (induction items arbitrary: cur)
  case Nil
  then show ?case by simp
next
  case (Cons item items)
  let ?n = "length (itemText item)"
  show ?case
  proof (cases "s - cur < ?n")
    case True
    with Cons.prems show ?thesis by (simp add: Let_def)
  next
    case False
    show ?thesis
    proof (cases items)
      case Nil
      with Cons.prems False show ?thesis by simp
    next
      case (Cons item' items')
      note items_eq = this
      let ?rest = "join_sp (map itemText items)"
      have j: "join_sp (map itemText (item # items)) = itemText item @ 0x20 # ?rest"
        using items_eq by simp
      from False Cons.prems(4) j have neq: "s - cur \<noteq> ?n"
        by (auto simp add: nth_append)
      with False have gt: "?n < s - cur" by simp
      then have a: "cur + ?n + 1 \<le> s" by simp
      define k' where "k' = s - (cur + ?n + 1)"
      have k: "s - cur = ?n + Suc k'" using gt by (simp add: k'_def)
      from gt Cons.prems(3) j have b: "k' < length ?rest" by (simp add: k'_def)
      from Cons.prems(4) have "(itemText item @ 0x20 # ?rest) ! (?n + Suc k') \<noteq> 0x20"
        unfolding j k .
      then have c: "?rest ! k' \<noteq> 0x20" by (simp add: nth_append)
      have "findItemsFrom (cur + ?n + 1) items s e \<noteq> []"
        using Cons.IH [of "cur + ?n + 1"] a Cons.prems(2) b c unfolding k'_def by blast
      then
      show ?thesis by (simp add: Let_def)
    qed
  qed
qed

lemma upt_block_sorted: "sorted_wrt (<) (take m (drop d [0..<n]))"
  by (intro sorted_wrt_take sorted_wrt_drop) simp


lemma upt_block_range: "i \<in> set (take m (drop d [0..<n])) \<Longrightarrow> i < n"
proof -
  assume "i \<in> set (take m (drop d [0..<n]))"
  then have "i \<in> set (drop d [0..<n])" by (rule in_set_takeD)
  then have "i \<in> set [0..<n]" by (rule in_set_dropD)
  then show ?thesis by simp
qed

lemma found_block:
  assumes "map itemIndex items = [0..<length items]"
  shows "\<exists>d m. findItemsForCharRange items s e = take m (drop d [0..<length items])"
proof -
  from findItemsFrom_block [of 0 items s e] obtain d m where
    "findItemsFrom 0 items s e = map itemIndex (take m (drop d items))" by blast
  then have "findItemsForCharRange items s e = take m (drop d (map itemIndex items))"
    by (simp add: findItemsForCharRange_def take_map drop_map)
  with assms have "findItemsForCharRange items s e = take m (drop d [0..<length items])"
    by simp
  then show ?thesis by blast
qed

lemma found_nonempty:
  assumes idx: "indexOf (normalizedPageText items) nq = Some m"
    and ne: "nq \<noteq> []" and sp: "\<not> is_space (hd nq)"
    and plain: "0x130 \<notin> set (join_sp (map itemText items))"
  shows "findItemsForCharRange items m (m + length nq) \<noteq> []"
proof -
  let ?raw = "join_sp (map itemText items)"
  have npt: "normalizedPageText items = map lowerOne ?raw"
    by (simp add: normalizedPageText_def toLowerCase_plain [OF plain])
  from indexOf_prefix [OF idx] obtain zs where
    z: "drop m (normalizedPageText items) = nq @ zs" by (auto simp add: prefix_def)
  with ne have lt: "m < length (normalizedPageText items)" by (cases "m < length (normalizedPageText items)") auto
  then have lt': "m < length ?raw" by (simp add: npt)
  from z ne have "hd (drop m (normalizedPageText items)) = hd nq" by simp
  with hd_drop_conv_nth [OF lt] have "normalizedPageText items ! m = hd nq" by simp
  with lt' have low: "lowerOne (?raw ! m) = hd nq" by (simp add: npt)
  have "?raw ! m \<noteq> 0x20"
  proof
    assume "?raw ! m = 0x20"
    with low have "hd nq = 0x20" by simp
    with sp show False by simp
  qed
  with lt' ne show ?thesis
    unfolding findItemsForCharRange_def
    using findItemsFrom_nonempty [of 0 m "m + length nq" items] by simp
qed

section \<open>Facts about the index\<close>

lemma spanOf_simps [simp]:
  "spanOf [] = 0" "spanOf (t # ts) = length (itemText t) + 1 + spanOf ts"
  "spanOf (ts @ us) = spanOf ts + spanOf us"
  by (simp_all add: spanOf_def)

lemma indexPage_length [simp]: "length (fst (indexPage i idx off items)) = length items"
  by (induction items arbitrary: idx off) (simp_all add: Let_def case_prod_beta)

lemma indexPage_itemIndex:
  "map itemIndex (fst (indexPage i idx off items)) = [idx..<idx + length items]"
proof (induction items arbitrary: idx off)
  case Nil
  show ?case by simp
next
  case (Cons item items)
  have "[idx..<idx + length (item # items)] = idx # [Suc idx..<Suc idx + length items]"
    by (simp add: upt_conv_Cons del: upt_Suc)
  with Cons.IH show ?case by (simp add: Let_def case_prod_beta del: upt_Suc)
qed

lemma indexPage_pageNum:
  "t \<in> set (fst (indexPage i idx off items)) \<Longrightarrow> pageNum t = i"
  by (induction items arbitrary: idx off) (auto simp add: Let_def case_prod_beta)

lemma indexPage_offset:
  "snd (indexPage i idx off items) = off + spanOf (fst (indexPage i idx off items))"
  by (induction items arbitrary: idx off) (simp_all add: Let_def case_prod_beta)

lemma indexPage_offsetsFrom:
  "offsetsFrom off (fst (indexPage i idx off items))"
  by (induction items arbitrary: idx off) (simp_all add: Let_def case_prod_beta)

lemma offsetsFrom_append:
  "offsetsFrom off (ts @ us) \<longleftrightarrow> offsetsFrom off ts \<and> offsetsFrom (off + spanOf ts) us"
  by (induction ts arbitrary: off) (auto simp add: ac_simps)

lemma indexPages_offsetsFrom:
  "offsetsFrom off (indexPages i off pages)"
proof (induction pages arbitrary: i off)
  case Nil
  show ?case by simp
next
  case (Cons p pages)
  obtain entries off' where ip: "indexPage i 0 off p = (entries, off')" by (cases "indexPage i 0 off p")
  have "offsetsFrom off entries" using indexPage_offsetsFrom [of off i 0 p] ip by simp
  moreover have "off' = off + spanOf entries" using indexPage_offset [of i 0 off p] ip by simp
  ultimately show ?case using Cons.IH [of off' "Suc i"] ip by (simp add: offsetsFrom_append)
qed

lemma offsetsFrom_nth:
  "offsetsFrom off ts \<Longrightarrow> k < length ts \<Longrightarrow>
   charEnd (ts ! k) = charStart (ts ! k) + length (itemText (ts ! k))"
  by (induction ts arbitrary: off k) (auto simp add: nth_Cons')

lemma offsetsFrom_next:
  "offsetsFrom off ts \<Longrightarrow> Suc k < length ts \<Longrightarrow>
   charStart (ts ! Suc k) = charEnd (ts ! k) + 1"
proof (induction ts arbitrary: off k)
  case Nil
  then show ?case by simp
next
  case (Cons t ts)
  show ?case
  proof (cases k)
    case 0
    with Cons.prems show ?thesis by (cases ts) auto
  next
    case (Suc j)
    with Cons.prems Cons.IH [of "off + length (itemText t) + 1" j] show ?thesis by simp
  qed
qed

lemma indexPages_pageNum_ge:
  "t \<in> set (indexPages i off pages) \<Longrightarrow> i \<le> pageNum t"
proof (induction pages arbitrary: i off)
  case Nil
  then show ?case by simp
next
  case (Cons p pages)
  obtain entries off' where ip: "indexPage i 0 off p = (entries, off')" by (cases "indexPage i 0 off p")
  from Cons.prems ip have "t \<in> set entries \<or> t \<in> set (indexPages (Suc i) off' pages)" by simp
  then show ?case
  proof
    assume "t \<in> set entries"
    then show ?thesis using indexPage_pageNum [of t i 0 off p] ip by simp
  next
    assume "t \<in> set (indexPages (Suc i) off' pages)"
    from Cons.IH [OF this] show ?thesis by simp
  qed
qed

lemma indexPages_page_itemIndex:
  "map itemIndex (filter (\<lambda>t. pageNum t = hp) (indexPages i off pages)) =
   [0..<length (filter (\<lambda>t. pageNum t = hp) (indexPages i off pages))]"
proof (induction pages arbitrary: i off)
  case Nil
  show ?case by simp
next
  case (Cons p pages)
  obtain entries off' where ip: "indexPage i 0 off p = (entries, off')" by (cases "indexPage i 0 off p")
  have pn: "\<forall>t\<in>set entries. pageNum t = i" using indexPage_pageNum [of _ i 0 off p] ip by simp
  show ?case
  proof (cases "hp = i")
    case True
    have "\<forall>t\<in>set (indexPages (Suc i) off' pages). pageNum t \<noteq> hp"
      using indexPages_pageNum_ge [of _ "Suc i" off' pages] True by fastforce
    then have r: "filter (\<lambda>t. pageNum t = hp) (indexPages (Suc i) off' pages) = []"
      by (simp add: filter_empty_conv)
    have e: "filter (\<lambda>t. pageNum t = hp) entries = entries"
      using pn True by (simp add: filter_id_conv)
    have "map itemIndex entries = [0..<length entries]"
      using indexPage_itemIndex [of i 0 off p] indexPage_length [of i 0 off p] ip by simp
    with r e ip show ?thesis by simp
  next
    case False
    with pn have "filter (\<lambda>t. pageNum t = hp) entries = []" by (simp add: filter_empty_conv)
    with ip Cons.IH [of "Suc i" off'] show ?thesis by simp
  qed
qed

lemma newTextIndex_page_itemIndex:
  "map itemIndex (pageItemsOf (newTextIndex pages) hp) =
   [0..<length (pageItemsOf (newTextIndex pages) hp)]"
  unfolding pageItemsOf_def newTextIndex_def by (rule indexPages_page_itemIndex)

lemma newTextIndex_pageNum_pos:
  "t \<in> set (pageItemsOf (newTextIndex pages) hp) \<Longrightarrow> 0 < hp"
  using indexPages_pageNum_ge [of t 1 0 "take 10 pages"]
  by (auto simp add: pageItemsOf_def newTextIndex_def)

section \<open>Facts about the highlight map\<close>

lemma fold_upd_lookup:
  "fold (\<lambda>i h. h((p, i) \<mapsto> e i)) is h key =
   (if fst key = p \<and> snd key \<in> set is then Some (e (snd key)) else h key)"
proof (induction "is" arbitrary: h)
  case Nil
  show ?case by simp
next
  case (Cons i "is")
  let ?F = "\<lambda>i h. h((p, i) \<mapsto> e i)"
  have "fold ?F (i # is) h key = fold ?F is (?F i h) key"
    by (simp only: fold_simps comp_apply)
  also have "\<dots> = (if fst key = p \<and> snd key \<in> set is then Some (e (snd key))
                     else (?F i h) key)"
    by (rule Cons.IH)
  also have "\<dots> = (if fst key = p \<and> snd key \<in> set (i # is) then Some (e (snd key))
                     else h key)"
    by (cases key) auto
  finally show ?case .
qed

lemma setEntries_lookup:
  "setEntries mapping match h key =
   (if fst key = matchPage match \<and> snd key \<in> set (itemIndices match)
    then Some (highlightEntry mapping (fst key) (snd key)) else h key)"
  unfolding setEntries_def
  using fold_upd_lookup [of "matchPage match" "highlightEntry mapping (matchPage match)"
                            "itemIndices match" h key]
  by simp

lemma applyMapping_lookup:
  "applyMapping textIndex mapping h key =
   (if hits textIndex mapping key then Some (highlightEntry mapping (fst key) (snd key))
    else h key)"
  by (auto simp add: applyMapping_def hits_def setEntries_lookup split: option.splits)

lemma fold_applyMapping_miss:
  "\<forall>m\<in>set ms. \<not> hits textIndex m key \<Longrightarrow>
   fold (applyMapping textIndex) ms h key = h key"
  by (induction ms arbitrary: h) (simp_all add: applyMapping_lookup)

lemma applyMapping_skip: "skipMapping mapping \<Longrightarrow> applyMapping textIndex mapping h = h"
  by (simp add: applyMapping_def)

section \<open>Facts about the mappings of \<open>getMappings\<close>\<close>







section \<open>Matching\<close>

text \<open>
  Where neither the text of the hint page nor the query holds U+0130, the offsets found
  in the lower-cased text are offsets of the text itself, and containment gives a match:
  if the lower-cased text of the hint page contains the normalized query, which has at
  least 12 characters and is not a pure number, and at most 5 fragments overlap its first
  occurrence, the matcher returns a match with \<open>exactMatch\<close> true, confidence 1 and item
  indices that are non-empty, increasing and below the number of fragments of the page.
\<close>

lemma exact_containment_plain:
  assumes plain_page:
      "0x130 \<notin> set (join_sp (map itemText (pageItemsOf (newTextIndex pages) hp)))"
    and plain_query: "0x130 \<notin> set query"
    and contains:
      "normalizedPageText (pageItemsOf (newTextIndex pages) hp) = pre @ normalizeQuery query @ post"
    and long: "12 \<le> length (normalizeQuery query)"
    and nonnum: "\<not> is_pure_number (normalizeQuery query)"
  shows "\<exists>matchIndex.
           indexOf (normalizedPageText (pageItemsOf (newTextIndex pages) hp)) (normalizeQuery query)
             = Some matchIndex
           \<and> (length (findItemsForCharRange (pageItemsOf (newTextIndex pages) hp) matchIndex
                         (matchIndex + length (normalizeQuery query))) \<le> 5
                \<longrightarrow> (\<exists>r. searchForCitedText (newTextIndex pages) query (Some hp) = Some r
                       \<and> exactMatch r \<and> confidence r = 1 \<and> matchPage r = hp
                       \<and> itemIndices r \<noteq> [] \<and> sorted_wrt (<) (itemIndices r)
                       \<and> (\<forall>i\<in>set (itemIndices r).
                             i < length (pageItemsOf (newTextIndex pages) hp))))"
proof -
  let ?items = "pageItemsOf (newTextIndex pages) hp"
  let ?nq = "normalizeQuery query"
  from indexOf_contains [OF contains] obtain m where
    m: "indexOf (normalizedPageText ?items) ?nq = Some m" ..
  let ?found = "findItemsForCharRange ?items m (m + length ?nq)"
  from long have ne: "?nq \<noteq> []" by auto
  have fne: "?found \<noteq> []"
    by (rule found_nonempty [OF m ne normalizeQuery_hd [OF ne] plain_page])
  from found_block [OF newTextIndex_page_itemIndex, of pages hp m "m + length ?nq"]
  obtain d n where blk: "?found = take n (drop d [0..<length ?items])" by blast
  have srt: "sorted_wrt (<) ?found" unfolding blk by (rule upt_block_sorted)
  have rng: "\<forall>i\<in>set ?found. i < length ?items"
    unfolding blk using upt_block_range by blast
  from fne have ine: "?items \<noteq> []" by (auto simp add: findItemsForCharRange_def)
  then obtain t where t: "t \<in> set ?items" by (cases ?items) auto
  from newTextIndex_pageNum_pos [OF t] have hp: "hp \<noteq> 0" by simp
  from ine have tne: "newTextIndex pages \<noteq> []" by (auto simp add: pageItemsOf_def)
  from long length_normalizeQuery_le [OF plain_query] have ql: "12 \<le> length query" by simp
  have np: "\<not> is_pure_number (trim query)"
    using nonnum pure_number_normalize [of query] plain_query by auto
  have "length ?found \<le> 5 \<longrightarrow>
        searchForCitedText (newTextIndex pages) query (Some hp) =
        Some \<lparr> matchPage = hp, itemIndices = ?found, exactMatch = True, confidence = 1 \<rparr>"
    using m fne hp tne ql np ine by (auto simp add: searchForCitedText_def Let_def)
  with m fne srt rng show ?thesis by auto
qed

text \<open>
  C1 (exact containment) does not hold of the code: on the page whose first fragment is
  thirty times U+0130 and whose second fragment is the query, the lower-cased text of
  the page contains the normalized query, of 20 characters and not a pure number, and
  one fragment covers it; but \<open>indexOf\<close> gives offset 61 in the lower-cased text, which
  lies beyond the 51 code units of the fragments as they are, so that no fragment is
  found to overlap the occurrence and the matcher returns no match.
\<close>

theorem exact_containment_lost:
  "map itemText (pageItemsOf (newTextIndex dottedPages) 1) = [replicate 30 0x130, dottedQuery]
   \<and> normalizedPageText (pageItemsOf (newTextIndex dottedPages) 1) =
       toLowerCase (replicate 30 0x130) @ [0x20] @ normalizeQuery dottedQuery @ []
   \<and> 12 \<le> length (normalizeQuery dottedQuery)
   \<and> \<not> is_pure_number (normalizeQuery dottedQuery)
   \<and> length (join_sp (map itemText (pageItemsOf (newTextIndex dottedPages) 1))) = 51
   \<and> indexOf (normalizedPageText (pageItemsOf (newTextIndex dottedPages) 1))
         (normalizeQuery dottedQuery) = Some 61
   \<and> findItemsForCharRange (pageItemsOf (newTextIndex dottedPages) 1) 61
         (61 + length (normalizeQuery dottedQuery)) = []
   \<and> searchForCitedText (newTextIndex dottedPages) dottedQuery (Some 1) = None"
  by code_simp





section \<open>The offsets of the index\<close>

text \<open>
  C3 (index offset invariant): in the built index every entry ends at its start plus the
  length of its text, and every entry but the first starts one character after the end
  of the entry before it, across pages and for entries without text alike.
\<close>

theorem index_offset_invariant:
  "(k < length (newTextIndex pages) \<longrightarrow>
      charEnd (newTextIndex pages ! k) =
      charStart (newTextIndex pages ! k) + length (itemText (newTextIndex pages ! k)))
   \<and> (Suc k < length (newTextIndex pages) \<longrightarrow>
      charStart (newTextIndex pages ! Suc k) = charEnd (newTextIndex pages ! k) + 1)"
proof -
  have "offsetsFrom 0 (newTextIndex pages)"
    unfolding newTextIndex_def by (rule indexPages_offsetsFrom)
  then show ?thesis
    using offsetsFrom_nth [of 0 "newTextIndex pages" k] offsetsFrom_next [of 0 "newTextIndex pages" k]
    by blast
qed

theorem index_offset_invariant_witness:
  "9 < length (newTextIndex examplePages)
   \<and> itemText (newTextIndex examplePages ! 9) = []
   \<and> charEnd (newTextIndex examplePages ! 9) =
       charStart (newTextIndex examplePages ! 9) + length (itemText (newTextIndex examplePages ! 9))
   \<and> Suc 9 < length (newTextIndex examplePages)
   \<and> charStart (newTextIndex examplePages ! Suc 9) = charEnd (newTextIndex examplePages ! 9) + 1"
proof -
  have a: "9 < length (newTextIndex examplePages)" by code_simp
  have b: "Suc 9 < length (newTextIndex examplePages)" by code_simp
  have c: "itemText (newTextIndex examplePages ! 9) = []" by code_simp
  from index_offset_invariant [of 9 examplePages] a b c show ?thesis by blast
qed

section \<open>Rejection rules\<close>

text \<open>
  C6 (length floor): a query of fewer than 12 characters, the empty one included, gets
  no match, whatever the hint page and the index.
\<close>

theorem length_floor:
  "length query < 12 \<Longrightarrow> searchForCitedText textIndex query hintPage = None"
  by (simp add: searchForCitedText_def)

theorem length_floor_witness:
  "length (js ''size was 42'') < 12
   \<and> searchForCitedText exampleIndex (js ''size was 42'') (Some 3) = None"
proof -
  have h: "length (js ''size was 42'') < 12" by (simp add: js_def)
  from length_floor [OF h, of exampleIndex "Some 3"] h show ?thesis by blast
qed

text \<open>
  C7 (numeric rejection): a query whose trimmed form matches the pure-number pattern gets
  no match, whatever the hint page and the index; so it is for \<open>45\<close> and \<open>8.5\<close>.
\<close>

theorem numeric_rejection:
  "(is_pure_number (trim query) \<longrightarrow> searchForCitedText textIndex query hintPage = None)
   \<and> searchForCitedText textIndex (js ''45'') hintPage = None
   \<and> searchForCitedText textIndex (js ''8.5'') hintPage = None"
  by (simp add: searchForCitedText_def js_def)

theorem numeric_rejection_witness:
  "12 \<le> length numericQuery \<and> is_pure_number (trim numericQuery)
   \<and> searchForCitedText exampleIndex numericQuery (Some 3) = None"
proof -
  have l: "12 \<le> length numericQuery" by code_simp
  have h: "is_pure_number (trim numericQuery)" by code_simp
  from numeric_rejection [of numericQuery exampleIndex "Some 3"] h l show ?thesis by blast
qed

text \<open>
  C8 (no hint page): without a hint page there is no match, whatever the query and the
  index.
\<close>

theorem no_hint_page:
  "searchForCitedText textIndex query None = None"
  by (simp add: searchForCitedText_def Let_def)

theorem no_hint_page_witness:
  "searchForCitedText exampleIndex scenarioAQuery None = None"
  by (rule no_hint_page)

section \<open>Building the highlight map\<close>



text \<open>
  C5 (last writer wins): when two mappings with different paths both write the same key
  and no mapping after the second one writes it, the built map holds at that key the
  entry of the second one, with its path.
\<close>

theorem last_writer_wins:
  assumes "hits textIndex m1 key" and "hits textIndex m2 key"
    and "path m1 \<noteq> path m2"
    and "\<forall>m\<in>set post. \<not> hits textIndex m key"
  shows "buildPreciseHighlights textIndex (pre @ m1 # mid @ m2 # post) key =
           Some (highlightEntry m2 (fst key) (snd key))
         \<and> hlPath (highlightEntry m2 (fst key) (snd key)) = path m2
         \<and> hlPath (highlightEntry m2 (fst key) (snd key)) \<noteq> path m1"
proof -
  have "buildPreciseHighlights textIndex (pre @ m1 # mid @ m2 # post) key =
        fold (applyMapping textIndex) post
          (applyMapping textIndex m2
             (fold (applyMapping textIndex) (pre @ m1 # mid) Map.empty)) key"
    by (simp add: buildPreciseHighlights_def)
  also have "\<dots> = applyMapping textIndex m2
                     (fold (applyMapping textIndex) (pre @ m1 # mid) Map.empty) key"
    by (rule fold_applyMapping_miss [OF assms(4)])
  also have "\<dots> = Some (highlightEntry m2 (fst key) (snd key))"
    using assms(2) by (simp add: applyMapping_lookup)
  finally show ?thesis using assms(3) by (simp add: highlightEntry_def)
qed

theorem last_writer_wins_witness:
  "hits exampleIndex totalMapping (3, 3) \<and> hits exampleIndex surgicalMapping (3, 3)
   \<and> path totalMapping \<noteq> path surgicalMapping
   \<and> buildPreciseHighlights exampleIndex ([] @ totalMapping # [] @ surgicalMapping # []) (3, 3) =
       Some (highlightEntry surgicalMapping (fst (3::nat, 3::nat)) (snd (3::nat, 3::nat)))
   \<and> hlPath (highlightEntry surgicalMapping (fst (3::nat, 3::nat)) (snd (3::nat, 3::nat))) = path surgicalMapping
   \<and> hlPath (highlightEntry surgicalMapping (fst (3::nat, 3::nat)) (snd (3::nat, 3::nat))) \<noteq> path totalMapping"
proof -
  have h1: "hits exampleIndex totalMapping (3, 3)" by code_simp
  have h2: "hits exampleIndex surgicalMapping (3, 3)" by code_simp
  have h3: "path totalMapping \<noteq> path surgicalMapping" by code_simp
  have h4: "\<forall>m\<in>set []. \<not> hits exampleIndex m (3, 3)" by simp
  from last_writer_wins [OF h1 h2 h3 h4, of "[]" "[]"] h1 h2 h3 show ?thesis by blast
qed

section \<open>The rule for \<open>doi\<close>\<close>

text \<open>
  C9 (doi rule), as the code has it: a context whose lower-cased form contains \<open>doi\<close> and
  neither \<open>author\<close> nor \<open>citation\<close> is given the path \<open>studyId.doi\<close>.
\<close>

theorem doi_rule:
  assumes "includes_str (toLowerCase contextText) (js ''doi'')"
    and "\<not> includes_str (toLowerCase contextText) (js ''author'')"
    and "\<not> includes_str (toLowerCase contextText) (js ''citation'')"
  shows "inferFieldPath contextText = js ''studyId.doi''"
  using assms by (simp add: inferFieldPath_def Let_def)

theorem doi_rule_witness:
  "includes_str (toLowerCase (js ''DOI: 10.1000/xyz'')) (js ''doi'')
   \<and> \<not> includes_str (toLowerCase (js ''DOI: 10.1000/xyz'')) (js ''author'')
   \<and> \<not> includes_str (toLowerCase (js ''DOI: 10.1000/xyz'')) (js ''citation'')
   \<and> inferFieldPath (js ''DOI: 10.1000/xyz'') = js ''studyId.doi''"
proof -
  have h1: "includes_str (toLowerCase (js ''DOI: 10.1000/xyz'')) (js ''doi'')" by code_simp
  have h2: "\<not> includes_str (toLowerCase (js ''DOI: 10.1000/xyz'')) (js ''author'')" by code_simp
  have h3: "\<not> includes_str (toLowerCase (js ''DOI: 10.1000/xyz'')) (js ''citation'')" by code_simp
  from doi_rule [OF h1 h2 h3] h1 h2 h3 show ?thesis by blast
qed

text \<open>
  The rule for \<open>author\<close> and \<open>citation\<close> comes first: a context that names the authors
  and a DOI is given the path \<open>studyId.citation\<close>.
\<close>

theorem doi_rule_counterexample:
  "includes_str (toLowerCase (js ''Authors: DOI 10.1000/xyz'')) (js ''doi'')
   \<and> inferFieldPath (js ''Authors: DOI 10.1000/xyz'') = js ''studyId.citation''
   \<and> inferFieldPath (js ''Authors: DOI 10.1000/xyz'') \<noteq> js ''studyId.doi''"
  by code_simp

end
